theory Spec2Isabelle
  imports Main
begin

section \<open>Strings as Python sees them\<close>

text \<open>
  Python strings are modelled as \<^typ>\<open>string\<close>, one \<^typ>\<open>char\<close> per code point, which
  covers the code points below 256. Over that range \<open>str.strip()\<close> removes the characters
  for which \<open>str.isspace()\<close> holds (tab to carriage return, the four separators
  0x1C..0x1F, the space, NEL 0x85 and the no-break space 0xA0), and the regular
  expression class \<open>\d\<close> is the ten ASCII digits.
\<close>

definition is_space :: "char \<Rightarrow> bool" where
  "is_space c = (c \<in> set [CHR 0x09, CHR 0x0A, CHR 0x0B, CHR 0x0C, CHR 0x0D,
                            CHR 0x1C, CHR 0x1D, CHR 0x1E, CHR 0x1F, CHR 0x20,
                            CHR 0x85, CHR 0xA0])"

definition is_digit :: "char \<Rightarrow> bool" where
  "is_digit c = (c \<in> set ''0123456789'')"

text \<open>\<open>s.strip()\<close>\<close>

definition py_strip :: "string \<Rightarrow> string" where
  "py_strip s = rev (dropWhile is_space (rev (dropWhile is_space s)))"

text \<open>\<open>s.startswith(p)\<close>\<close>

definition startswith :: "string \<Rightarrow> string \<Rightarrow> bool" where
  "startswith p s = (take (length p) s = p)"

text \<open>\<open>sub in s\<close>: the substring test.\<close>

fun py_in :: "string \<Rightarrow> string \<Rightarrow> bool" where
  "py_in sub [] = (sub = [])"
| "py_in sub (c # cs) = (startswith sub (c # cs) \<or> py_in sub cs)"

text \<open>
  \<open>s.split(sep)\<close> for a non-empty separator: the pieces between the non-overlapping
  occurrences of \<open>sep\<close>, found from the left. The accumulator holds the current
  piece, reversed. (Python raises \<open>ValueError\<close> on an empty separator; the source
  only splits on the literals \<open>"\n"\<close>, \<open>" --> "\<close> and \<open>"."\<close>.)
\<close>

function split_acc :: "string \<Rightarrow> string \<Rightarrow> string \<Rightarrow> string list" where
  "split_acc sep acc [] = [rev acc]"
| "split_acc sep acc (c # cs) =
     (if sep \<noteq> [] \<and> startswith sep (c # cs)
      then rev acc # split_acc sep [] (drop (length sep) (c # cs))
      else split_acc sep (c # acc) cs)"
  by pat_completeness auto
termination
  by (relation "measure (\<lambda>(sep, acc, s). length s)") auto

definition py_split :: "string \<Rightarrow> string \<Rightarrow> string list" where
  "py_split sep s = split_acc sep [] s"

text \<open>\<open>sep.join(xs)\<close>\<close>

fun py_join :: "string \<Rightarrow> string list \<Rightarrow> string" where
  "py_join sep [] = []"
| "py_join sep [x] = x"
| "py_join sep (x # y # ys) = x @ sep @ py_join sep (y # ys)"

text \<open>
  \<open>s.replace(old, '')\<close> for a non-empty \<open>old\<close>: every non-overlapping occurrence,
  found from the left, is deleted.
\<close>

function replace_del :: "string \<Rightarrow> string \<Rightarrow> string" where
  "replace_del old [] = []"
| "replace_del old (c # cs) =
     (if old \<noteq> [] \<and> startswith old (c # cs)
      then replace_del old (drop (length old) (c # cs))
      else c # replace_del old cs)"
  by pat_completeness auto
termination
  by (relation "measure (\<lambda>(old, s). length s)") auto

section \<open>Regular expressions as backtracking matchers\<close>

text \<open>
  A pattern is a function from the text at the current position to the list of texts
  that may remain after it has matched, in the order in which Python's backtracking
  engine tries them (greedy choices first). The pattern matches when a remainder is
  accepted by what follows.
\<close>

type_synonym matcher = "string \<Rightarrow> string list"

definition m_lit :: "string \<Rightarrow> matcher" where
  "m_lit l s = (if startswith l s then [drop (length l) s] else [])"

definition m_seq :: "matcher \<Rightarrow> matcher \<Rightarrow> matcher" where
  "m_seq p q s = concat (map q (p s))"

definition m_opt :: "matcher \<Rightarrow> matcher" where
  "m_opt p s = p s @ [s]"

definition m_alt :: "matcher \<Rightarrow> matcher \<Rightarrow> matcher" where
  "m_alt p q s = p s @ q s"

text \<open>\<open>\d{n}\<close>: exactly \<open>n\<close> digits.\<close>

definition m_digits :: "nat \<Rightarrow> matcher" where
  "m_digits n s = (if n \<le> length s \<and> list_all is_digit (take n s) then [drop n s] else [])"

text \<open>\<open>\d{1,2}\<close>: two digits first, then one.\<close>

definition m_digits_1_2 :: matcher where
  "m_digits_1_2 = m_alt (m_digits 2) (m_digits 1)"

text \<open>\<open>\d+\<close>: the longest run of digits first, then every shorter non-empty one.\<close>

definition m_digits_plus :: matcher where
  "m_digits_plus s = map (\<lambda>k. drop k s) (rev [1 ..< Suc (length (takeWhile is_digit s))])"

text \<open>
  \<open>$\<close> without the \<open>MULTILINE\<close> flag: the end of the text, or just before a newline
  that ends the text.
\<close>

definition re_dollar :: "string \<Rightarrow> bool" where
  "re_dollar s = (s = [] \<or> s = [CHR 0x0A])"

text \<open>\<open>pattern.match(s)\<close> for a pattern that ends in \<open>$\<close>, as a truth value.\<close>

definition re_match_dollar :: "matcher \<Rightarrow> string \<Rightarrow> bool" where
  "re_match_dollar p s = list_ex re_dollar (p s)"

section \<open>The extractor's patterns\<close>

text \<open>\<open>self.timestamp_regex = re.compile(r'^\d+$|^\d{1,2}:\d{2}(:\d{2})?(\.\d{3})?$')\<close>\<close>

definition timestamp_regex :: matcher where
  "timestamp_regex =
     m_alt m_digits_plus
       (m_seq m_digits_1_2 (m_seq (m_lit '':'') (m_seq (m_digits 2)
          (m_seq (m_opt (m_seq (m_lit '':'') (m_digits 2)))
                 (m_opt (m_seq (m_lit ''.'') (m_digits 3)))))))"

text \<open>
  Both alternatives of \<open>timestamp_regex\<close> start with \<open>^\<close> and end with \<open>$\<close>, and
  \<open>match\<close> anchors at the start, so \<open>is_timestamp_line\<close> asks for a remainder that
  \<open>$\<close> accepts.
\<close>

definition is_timestamp_line :: "string \<Rightarrow> bool" where
  "is_timestamp_line line = re_match_dollar timestamp_regex line"

text \<open>
  \<open>self.tag_regex = re.compile(r'<[^>]*>')\<close> and \<open>self.tag_regex.sub('', text)\<close>:
  scanning from the left, a \<open><\<close> that has a \<open>>\<close> somewhere after it is deleted
  together with everything up to and including the first such \<open>>\<close>; any other
  character is kept.
\<close>

function remove_vtt_tags :: "string \<Rightarrow> string" where
  "remove_vtt_tags [] = []"
| "remove_vtt_tags (c # cs) =
     (if c = CHR ''<'' \<and> CHR ''>'' \<in> set cs
      then remove_vtt_tags (tl (dropWhile (\<lambda>x. x \<noteq> CHR ''>'') cs))
      else c # remove_vtt_tags cs)"
  by pat_completeness auto
termination
proof (relation "measure length")
  fix c :: char and cs :: string
  have "length (tl (dropWhile (\<lambda>x. x \<noteq> CHR ''>'') cs)) \<le> length cs"
    using length_dropWhile_le [of "\<lambda>x. x \<noteq> CHR ''>''" cs] by simp
  then show "(tl (dropWhile (\<lambda>x. x \<noteq> CHR ''>'') cs), c # cs) \<in> measure length"
    by simp
qed simp_all

text \<open>The character class \<open>[a-zA-Z0-9_-]\<close>.\<close>

definition id_char :: "char \<Rightarrow> bool" where
  "id_char c = (c \<in> set ''abcdefghijklmnopqrstuvwxyzABCDEFGHIJKLMNOPQRSTUVWXYZ0123456789_-'')"

text \<open>\<open>(?:https?://)?(?:www\.)?\<close>, the optional scheme and host prefix of all four patterns.\<close>

definition url_prefix :: matcher where
  "url_prefix =
     m_seq (m_opt (m_seq (m_lit ''http'') (m_seq (m_opt (m_lit ''s'')) (m_lit ''://''))))
           (m_opt (m_lit ''www.''))"

text \<open>
  The four patterns differ in the literal that follows the prefix; each ends in the
  group \<open>([a-zA-Z0-9_-]{11})\<close>.
\<close>

definition patterns :: "string list" where
  "patterns = [''youtube.com/watch?v='', ''youtu.be/'', ''youtube.com/shorts/'',
               ''youtube.com/embed/'']"

text \<open>
  A match of one pattern that starts at the head of \<open>s\<close>: the first remainder, in
  backtracking order, that begins with eleven identifier characters; group 1 is those
  eleven characters.
\<close>

definition match_here :: "string \<Rightarrow> string \<Rightarrow> string option" where
  "match_here lit s =
     (case filter (\<lambda>r. 11 \<le> length r \<and> list_all id_char (take 11 r))
                  (m_seq url_prefix (m_lit lit) s) of
        [] \<Rightarrow> None
      | r # _ \<Rightarrow> Some (take 11 r))"

text \<open>\<open>re.search(pattern, url)\<close>: the match at the leftmost start position that has one.\<close>

fun re_search :: "string \<Rightarrow> string \<Rightarrow> string option" where
  "re_search lit [] = match_here lit []"
| "re_search lit (c # cs) =
     (case match_here lit (c # cs) of
        Some g \<Rightarrow> Some g
      | None \<Rightarrow> re_search lit cs)"

text \<open>The \<open>for pattern in patterns\<close> loop of \<open>extract_video_id\<close>.\<close>

fun first_match :: "string list \<Rightarrow> string \<Rightarrow> string option" where
  "first_match [] url = None"
| "first_match (pattern # ps) url =
     (case re_search pattern url of
        Some g \<Rightarrow> Some g
      | None \<Rightarrow> first_match ps url)"

definition extract_video_id :: "string \<Rightarrow> string option" where
  "extract_video_id url = first_match patterns url"

section \<open>The caption normalizer\<close>

text \<open>
  \<open>format_vtt_timestamp\<close>: \<open>parts = vtt_time.split(".")\<close>, then \<open>parts[0]\<close> when
  \<open>len(parts) > 0\<close> and the argument itself otherwise.
\<close>

definition format_vtt_timestamp :: "string \<Rightarrow> string" where
  "format_vtt_timestamp vtt_time =
     (case py_split ''.'' vtt_time of
        [] \<Rightarrow> vtt_time
      | p # _ \<Rightarrow> p)"

text \<open>The local variables of the loop in \<open>process_vtt_file\<close>.\<close>

record loop_state =
  text_builder :: "string list"
  seen_segments :: "string set"
  current_timestamp :: "string option"

definition init_state :: loop_state where
  "init_state = \<lparr>text_builder = [], seen_segments = {}, current_timestamp = None\<rparr>"

text \<open>The test that skips the \<open>WEBVTT\<close> header, empty lines and metadata lines.\<close>

definition is_header_line :: "string \<Rightarrow> bool" where
  "is_header_line line =
     (line = [] \<or> line = ''WEBVTT'' \<or> startswith ''NOTE'' line \<or> startswith ''STYLE'' line \<or>
      startswith ''Kind:'' line \<or> startswith ''Language:'' line)"

text \<open>The guard of \<open># Skip numeric sequence identifiers\<close>.\<close>

definition is_sequence_id :: "string \<Rightarrow> bool" where
  "is_sequence_id line = (is_timestamp_line line \<and> \<not> py_in '':'' line)"

text \<open>
  The truth value of \<open>current_timestamp\<close> in \<open>include_timestamps and current_timestamp\<close>:
  \<open>None\<close> and the empty string are false.
\<close>

fun truthy :: "string option \<Rightarrow> bool" where
  "truthy None = False"
| "truthy (Some s) = (s \<noteq> [])"

text \<open>The f-string \<open>f"[{current_timestamp}] {clean_line}"\<close>.\<close>

definition stamped :: "string \<Rightarrow> string \<Rightarrow> string" where
  "stamped ts clean_line = ''['' @ ts @ ''] '' @ clean_line"

text \<open>What is appended to \<open>text_builder\<close> for a new \<open>clean_line\<close>.\<close>

definition segment :: "bool \<Rightarrow> string option \<Rightarrow> string \<Rightarrow> string" where
  "segment include_timestamps ts clean_line =
     (if include_timestamps \<and> truthy ts then stamped (the ts) clean_line else clean_line)"

text \<open>One iteration of \<open>for line in lines\<close>, on the line as read.\<close>

definition loop_body :: "bool \<Rightarrow> loop_state \<Rightarrow> string \<Rightarrow> loop_state" where
  "loop_body include_timestamps st raw =
     (let line = py_strip raw in
      if is_header_line line then st
      else if py_in ''-->'' line then
        (if include_timestamps then
           (case py_split '' --> '' line of
              [] \<Rightarrow> st
            | p # _ \<Rightarrow> st\<lparr>current_timestamp := Some (format_vtt_timestamp p)\<rparr>)
         else st)
      else if is_sequence_id line then st
      else
        (let clean_line = remove_vtt_tags line in
         if clean_line \<noteq> [] \<and> clean_line \<notin> seen_segments st then
           st\<lparr>text_builder :=
                 text_builder st @ [segment include_timestamps (current_timestamp st) clean_line],
               seen_segments := insert clean_line (seen_segments st)\<rparr>
         else st))"

fun vtt_loop :: "bool \<Rightarrow> string list \<Rightarrow> loop_state \<Rightarrow> loop_state" where
  "vtt_loop include_timestamps [] st = st"
| "vtt_loop include_timestamps (line # lines) st =
     vtt_loop include_timestamps lines (loop_body include_timestamps st line)"

text \<open>The list \<open>text_builder\<close> when the loop over the lines of \<open>content\<close> ends.\<close>

definition segments :: "string \<Rightarrow> bool \<Rightarrow> string list" where
  "segments content include_timestamps =
     text_builder (vtt_loop include_timestamps (py_split [CHR 0x0A] content) init_state)"

text \<open>
  The body of the \<open>try\<close> block once the file has been read: the early return on a
  blank document, the loop and the join.
\<close>

definition normalize :: "string \<Rightarrow> bool \<Rightarrow> string" where
  "normalize content include_timestamps =
     (if py_strip content = [] then []
      else if include_timestamps then py_join [CHR 0x0A] (segments content True)
      else py_join '' '' (segments content False))"

text \<open>
  Exceptions as values. Only subclasses of \<open>Exception\<close> are modelled, each with the
  text \<open>str(e)\<close> gives.
\<close>

datatype exn = ValueError string | RuntimeError string | OtherException string

fun str_exn :: "exn \<Rightarrow> string" where
  "str_exn (ValueError m) = m"
| "str_exn (RuntimeError m) = m"
| "str_exn (OtherException m) = m"

text \<open>
  \<open>process_vtt_file\<close>. Opening and reading the file is the only step that can raise
  (a missing file, bytes that are not UTF-8); its outcome is the argument, \<open>Inl\<close> for
  the exception. The \<open>try\<close> block returns or raises, and \<open>except Exception\<close> turns
  what it raises into the empty string.
\<close>

definition process_vtt_try :: "exn + string \<Rightarrow> bool \<Rightarrow> exn + string" where
  "process_vtt_try read include_timestamps =
     (case read of
        Inl e \<Rightarrow> Inl e
      | Inr content \<Rightarrow> Inr (normalize content include_timestamps))"

definition process_vtt_file :: "exn + string \<Rightarrow> bool \<Rightarrow> string" where
  "process_vtt_file read include_timestamps =
     (case process_vtt_try read include_timestamps of
        Inl e \<Rightarrow> []
      | Inr result \<Rightarrow> result)"

section \<open>One extraction attempt\<close>

text \<open>
  \<open>Path.stem\<close> on the final path component (Python up to 3.13): the name up to its
  last dot, when that dot is neither the first nor the last character.
\<close>

definition rfind :: "char \<Rightarrow> string \<Rightarrow> int" where
  "rfind c s =
     (if c \<in> set s then int (length s) - 1 - int (length (takeWhile (\<lambda>x. x \<noteq> c) (rev s)))
      else - 1)"

definition stem :: "string \<Rightarrow> string" where
  "stem name =
     (let i = rfind CHR ''.'' name
      in if 0 < i \<and> i < int (length name) - 1 then take (nat i) name else name)"

text \<open>\<open>vtt_file.stem.replace('.en', '').replace('.vtt', '')\<close>\<close>

definition video_title_of :: "string \<Rightarrow> string" where
  "video_title_of name = replace_del ''.vtt'' (replace_del ''.en'' (stem name))"

text \<open>Decimal rendering of an integer, as an f-string prints it.\<close>

fun show_nat :: "nat \<Rightarrow> string" where
  "show_nat n =
     (if n < 10 then [char_of (48 + n)]
      else show_nat (n div 10) @ [char_of (48 + n mod 10)])"

definition show_int :: "int \<Rightarrow> string" where
  "show_int i = (if i < 0 then ''-'' @ show_nat (nat (- i)) else show_nat (nat i))"

text \<open>
  What the outside world does in one attempt, from \<open>subprocess.run\<close> to the read of
  the caption file: the command times out, something else raises (the text is
  \<open>str(e)\<close>), or the command completes with a return code, its \<open>stderr\<close> and the
  files that \<open>rglob("*.vtt")\<close> then lists, each with its name and what reading
  it gives.
\<close>

record vtt_file =
  file_name :: string
  file_read :: "exn + string"

datatype run_outcome =
    TimeoutExpired
  | Raised string
  | Completed int string "vtt_file list"

record success_result =
  video_id :: string
  video_url :: string
  video_title :: string
  transcript :: string
  transcript_length :: nat
  source :: string
  language :: string
  proxy_used :: string
  includes_timestamps :: bool

text \<open>The truth value of \<open>proxy\<close>, and \<open>proxy if proxy else "direct"\<close>.\<close>

definition proxy_label :: "string option \<Rightarrow> string" where
  "proxy_label proxy = (if truthy proxy then the proxy else ''direct'')"

definition extract_transcript ::
  "string \<Rightarrow> string option \<Rightarrow> bool \<Rightarrow> run_outcome \<Rightarrow> exn + success_result" where
  "extract_transcript url proxy include_timestamps outcome =
     (case extract_video_id url of
        None \<Rightarrow> Inl (ValueError (''Could not extract video ID from URL: '' @ url))
      | Some vid \<Rightarrow>
          (case outcome of
             TimeoutExpired \<Rightarrow> Inl (RuntimeError ''yt-dlp command timed out after 120 seconds'')
           | Raised m \<Rightarrow> Inl (OtherException m)
           | Completed returncode stderr vtt_files \<Rightarrow>
               if returncode \<noteq> 0 then
                 Inl (RuntimeError (''yt-dlp failed with return code '' @ show_int returncode @
                                    '': '' @ stderr))
               else
                 (case vtt_files of
                    [] \<Rightarrow> Inl (RuntimeError ''No VTT files found'')
                  | f # _ \<Rightarrow>
                      (let transcript_text = process_vtt_file (file_read f) include_timestamps in
                       if transcript_text = [] \<or> length (py_strip transcript_text) = 0 then
                         Inl (RuntimeError ''No transcript content found in VTT file'')
                       else
                         Inr \<lparr>video_id = vid,
                              video_url = url,
                              video_title = video_title_of (file_name f),
                              transcript = py_strip transcript_text,
                              transcript_length = length (py_strip transcript_text),
                              source = ''ytdlp_vtt_optimized'',
                              language = ''en'',
                              proxy_used = proxy_label proxy,
                              includes_timestamps = include_timestamps\<rparr>))))"

section \<open>The batch loop\<close>

record failed_result =
  failed_url :: string
  error :: "string option"
  attempts :: int
  failed_source :: string

datatype dataset_item = Succeeded success_result | Failed failed_result

text \<open>
  What \<open>main\<close> does to the outside world, in order: a call of
  \<open>extractor.extract_transcript\<close>, an \<open>asyncio.sleep\<close>, an \<open>Actor.push_data\<close>.
\<close>

datatype event = ExtractCall string | Sleep nat | PushData dataset_item

text \<open>
  The \<open>while retry_count < max_retries and not success\<close> loop. \<open>attempt k\<close> is what
  the call of \<open>extract_transcript\<close> gives after \<open>k\<close> failed attempts on this item.
  The loop returns \<open>success\<close>, \<open>last_error\<close> and the events so far.
\<close>

function retry_loop ::
  "int \<Rightarrow> string \<Rightarrow> (nat \<Rightarrow> exn + success_result) \<Rightarrow> int \<Rightarrow> bool \<Rightarrow> string option \<Rightarrow>
   event list \<Rightarrow> bool \<times> string option \<times> event list" where
  "retry_loop max_retries url attempt retry_count success last_error trace =
     (if retry_count < max_retries \<and> \<not> success then
        (case attempt (nat retry_count) of
           Inr result \<Rightarrow>
             retry_loop max_retries url attempt retry_count True last_error
               (trace @ [ExtractCall url, PushData (Succeeded result)])
         | Inl e \<Rightarrow>
             retry_loop max_retries url attempt (retry_count + 1) False (Some (str_exn e))
               (trace @ [ExtractCall url] @
                (if retry_count + 1 < max_retries then [Sleep 5] else [])))
      else (success, last_error, trace))"
  by pat_completeness auto
termination
  by (relation "measure (\<lambda>(m, u, a, rc, s, le, tr). if s then 0 else Suc (nat (m - rc)))") auto

text \<open>The body of \<open>for i, video_url in enumerate(all_urls, 1)\<close>.\<close>

definition process_url :: "int \<Rightarrow> (nat \<Rightarrow> exn + success_result) \<Rightarrow> string \<Rightarrow> event list" where
  "process_url max_retries attempt url =
     (case retry_loop max_retries url attempt 0 False None [] of
        (success, last_error, trace) \<Rightarrow>
          if \<not> success then
            trace @ [PushData (Failed \<lparr>failed_url = url,
                                        error = last_error,
                                        attempts = max_retries,
                                        failed_source = ''ytdlp_vtt_optimized''\<rparr>)]
          else trace)"

text \<open>
  The input of the run. An entry of \<open>startUrls\<close> is a dictionary (with the value
  under \<open>'url'\<close>, if any), a string, or something else.
\<close>

datatype start_url = UrlDict "string option" | UrlStr string | UrlOther

record actor_input =
  start_urls :: "start_url list"
  video_urls :: "string list"
  proxy :: "string option"
  max_retries :: int
  include_timestamps :: bool



text \<open>
  The loop over the batch. \<open>world i k\<close> is what the outside world does in the attempt
  made after \<open>k\<close> failures on the item at position \<open>i\<close> (from 0).
\<close>

definition item_attempt ::
  "actor_input \<Rightarrow> (nat \<Rightarrow> nat \<Rightarrow> run_outcome) \<Rightarrow> nat \<Rightarrow> string \<Rightarrow> nat \<Rightarrow>
   exn + success_result" where
  "item_attempt inp world i url k =
     extract_transcript url (proxy inp) (include_timestamps inp) (world i k)"





text \<open>A world in which every attempt has the same outcome.\<close>

definition const_world :: "run_outcome \<Rightarrow> nat \<Rightarrow> nat \<Rightarrow> run_outcome" where
  "const_world outcome i k = outcome"

text \<open>
  The events of an item on which \<open>n\<close> attempts are made and all fail, before its record
  is pushed: \<open>n\<close> calls with a five-second sleep after each but the last.
\<close>

fun failing_trace :: "string \<Rightarrow> nat \<Rightarrow> event list" where
  "failing_trace url 0 = []"
| "failing_trace url (Suc 0) = [ExtractCall url]"
| "failing_trace url (Suc (Suc n)) = ExtractCall url # Sleep 5 # failing_trace url (Suc n)"

text \<open>An input for the examples: one run over the given URLs, without a proxy.\<close>

definition example_input :: "string list \<Rightarrow> int \<Rightarrow> bool \<Rightarrow> actor_input" where
  "example_input urls retries with_timestamps =
     \<lparr>start_urls = [], video_urls = urls, proxy = None, max_retries = retries,
      include_timestamps = with_timestamps\<rparr>"

section \<open>Notions used to state the normalizer's properties\<close>

text \<open>The cleaned text of a line: trimmed, then with its tags removed.\<close>

definition clean :: "string \<Rightarrow> string" where
  "clean raw = remove_vtt_tags (py_strip raw)"

definition is_timing_line :: "string \<Rightarrow> bool" where
  "is_timing_line raw = py_in ''-->'' (py_strip raw)"

text \<open>
  A usable line is one that reaches the duplicate test: it is neither skipped as a
  header, a timing line or a sequence identifier, nor empty once cleaned.
\<close>

definition usable :: "string \<Rightarrow> bool" where
  "usable raw =
     (\<not> is_header_line (py_strip raw) \<and> \<not> is_timing_line raw \<and>
      \<not> is_sequence_id (py_strip raw) \<and> clean raw \<noteq> [])"

text \<open>
  The elements of a list in the order of their first occurrence (\<^const>\<open>remdups\<close>
  keeps the last occurrence of each element, hence the reversals).
\<close>

definition first_occurrences :: "'a list \<Rightarrow> 'a list" where
  "first_occurrences xs = rev (remdups (rev xs))"

text \<open>The cleaned texts of the usable lines, each once, in the order of first occurrence.\<close>

definition texts :: "string list \<Rightarrow> string list" where
  "texts lines = first_occurrences (map clean (filter usable lines))"

definition doc_lines :: "string \<Rightarrow> string list" where
  "doc_lines content = py_split [CHR 0x0A] content"

text \<open>
  The rule for sequence-index markers in the words of the specification: a line
  consisting solely of digits, or matching the bare timestamp pattern
  \<open>H:MM(:SS)?(.mmm)?\<close> (hours of one or two digits) when it contains no colon.
\<close>

definition spec_solely_digits :: "string \<Rightarrow> bool" where
  "spec_solely_digits line = (line \<noteq> [] \<and> list_all is_digit line)"

definition spec_bare_timestamp :: "string \<Rightarrow> bool" where
  "spec_bare_timestamp line =
     list_ex (\<lambda>rest. rest = [])
       (m_seq m_digits_1_2 (m_seq (m_lit '':'') (m_seq (m_digits 2)
          (m_seq (m_opt (m_seq (m_lit '':'') (m_digits 2)))
                 (m_opt (m_seq (m_lit ''.'') (m_digits 3)))))) line)"

definition spec_sequence_marker :: "string \<Rightarrow> bool" where
  "spec_sequence_marker line =
     (spec_solely_digits line \<or> (spec_bare_timestamp line \<and> \<not> py_in '':'' line))"

text \<open>Two documents for the examples.\<close>

definition example_document :: string where
  "example_document =
     py_join [CHR 0x0A]
       [''WEBVTT'', ''Kind: captions'', '''',
        ''1'', ''00:01:02.345 --> 00:01:05.000 align:start'', ''hello <c>world</c>'', '''',
        ''2'', ''00:01:05.000 --> 00:01:07.000'', ''hello world'', ''next <i>line</i>'']"

definition example_metadata_only :: string where
  "example_metadata_only =
     py_join [CHR 0x0A] [''WEBVTT'', ''Language: en'', '''', ''7'', ''00:00:01.000 --> 00:00:02.000'', ''<c></c>'']"

text \<open>
  A URL has the shape of a pattern when the pattern's literal occurs somewhere in it,
  followed at once by eleven identifier characters. (The scheme and host prefix of the
  patterns is optional, and \<open>re.search\<close> may start anywhere, so the prefix plays no
  part in whether a URL has the shape.)
\<close>

definition shape_here :: "string \<Rightarrow> string \<Rightarrow> bool" where
  "shape_here lit s =
     (startswith lit s \<and> 11 \<le> length (drop (length lit) s) \<and>
      list_all id_char (take 11 (drop (length lit) s)))"

fun has_shape :: "string \<Rightarrow> string \<Rightarrow> bool" where
  "has_shape lit [] = shape_here lit []"
| "has_shape lit (c # cs) = (shape_here lit (c # cs) \<or> has_shape lit cs)"

section \<open>Properties of the batch loop\<close>

declare retry_loop.simps [simp del]



lemma retry_loop_exit:
  "m \<le> rc \<or> s \<Longrightarrow> retry_loop m url attempt rc s le tr = (s, le, tr)"
  by (subst retry_loop.simps) auto

lemma retry_loop_fail_step:
  "rc < m \<Longrightarrow> attempt (nat rc) = Inl e \<Longrightarrow>
   retry_loop m url attempt rc False le tr =
   retry_loop m url attempt (rc + 1) False (Some (str_exn e))
     (tr @ [ExtractCall url] @ (if rc + 1 < m then [Sleep 5] else []))"
  by (subst retry_loop.simps) simp


text \<open>When every remaining attempt fails, the loop runs to the bound.\<close>

lemma retry_loop_all_fail:
  "nat (m - rc) = n \<Longrightarrow> 0 \<le> rc \<Longrightarrow>
   (\<And>k. rc \<le> int k \<Longrightarrow> int k < m \<Longrightarrow> isl (attempt k)) \<Longrightarrow>
   retry_loop m url attempt rc False le tr =
   (False,
    (if n = 0 then le else Some (str_exn (projl (attempt (nat (m - 1)))))),
    tr @ failing_trace url n)"
proof (induction n arbitrary: rc le tr)
  case 0
  then show ?case by (simp add: retry_loop_exit)
next
  case (Suc n)
  from Suc.prems have lt: "rc < m" by simp
  with Suc.prems have "isl (attempt (nat rc))" by simp
  then obtain e where e: "attempt (nat rc) = Inl e" by (auto simp: isl_def)
  have n: "nat (m - (rc + 1)) = n" using Suc.prems by simp
  have step: "retry_loop m url attempt (rc + 1) False (Some (str_exn e))
      (tr @ [ExtractCall url] @ (if rc + 1 < m then [Sleep 5] else [])) =
    (False, (if n = 0 then Some (str_exn e) else Some (str_exn (projl (attempt (nat (m - 1)))))),
     (tr @ [ExtractCall url] @ (if rc + 1 < m then [Sleep 5] else [])) @ failing_trace url n)"
    using Suc.prems by (intro Suc.IH [OF n]) simp_all
  show ?case
  proof (cases n)
    case 0
    with n lt have "rc = m - 1" by simp
    with 0 e step lt show ?thesis
      by (simp add: retry_loop_fail_step)
  next
    case (Suc n')
    with n have "rc + 1 < m" by simp
    with Suc e step lt show ?thesis
      by (simp add: retry_loop_fail_step)
  qed
qed

lemma process_url_all_fail:
  assumes "\<And>k. int k < m \<Longrightarrow> isl (attempt k)"
  shows "process_url m attempt url =
    failing_trace url (nat m) @
    [PushData (Failed \<lparr>failed_url = url,
        error = (if 0 < m then Some (str_exn (projl (attempt (nat (m - 1))))) else None),
        attempts = m, failed_source = ''ytdlp_vtt_optimized''\<rparr>)]"
proof -
  have "retry_loop m url attempt 0 False None [] =
    (False, (if nat m = 0 then None else Some (str_exn (projl (attempt (nat (m - 1)))))),
     [] @ failing_trace url (nat m))"
    using assms by (intro retry_loop_all_fail) simp_all
  then show ?thesis by (simp add: process_url_def)
qed





lemma invalid_url_attempt:
  "extract_video_id url = None \<Longrightarrow>
   extract_transcript url p ts out =
   Inl (ValueError (''Could not extract video ID from URL: '' @ url))"
  by (simp add: extract_transcript_def)

lemma example_not_a_url: "extract_video_id ''not a url'' = None"
  by code_simp

lemma example_short_link: "extract_video_id ''https://youtu.be/dQw4w9WgXcQ'' = Some ''dQw4w9WgXcQ''"
  by code_simp

text \<open>
  C1, as stated, fails. A URL without a video id (\<open>not a url\<close>) with \<open>maxRetries = 3\<close>:
  \<open>extract_transcript\<close> is called three times, with a five-second sleep after the first
  and after the second call, before the failure record is pushed.
\<close>

theorem invalid_url_retried_counterexample:
  "process_url 3
     (item_attempt (example_input [''not a url''] 3 False) (const_world TimeoutExpired) 0
        ''not a url'')
     ''not a url'' =
   [ExtractCall ''not a url'', Sleep 5, ExtractCall ''not a url'', Sleep 5,
    ExtractCall ''not a url'',
    PushData (Failed \<lparr>failed_url = ''not a url'',
                       error = Some ''Could not extract video ID from URL: not a url'',
                       attempts = 3,
                       failed_source = ''ytdlp_vtt_optimized''\<rparr>)]"
  using example_not_a_url
  by (simp add: process_url_def retry_loop_fail_step retry_loop_exit item_attempt_def
      extract_transcript_def)

text \<open>
  C1, amended. For every URL from which no video id can be parsed, every attempt fails
  with the error \<open>Could not extract video ID from URL: <url>\<close> whatever the outside
  world does, and the item is retried like any other failing item: \<open>maxRetries\<close> calls
  of \<open>extract_transcript\<close> with a five-second sleep after each but the last, then one
  failure record carrying that error (no error when no attempt was made) and
  \<open>attempts = maxRetries\<close>.
\<close>

theorem invalid_url_retried_to_the_bound:
  "extract_video_id url = None \<Longrightarrow>
   process_url m (item_attempt inp world i url) url =
   failing_trace url (nat m) @
   [PushData (Failed \<lparr>failed_url = url,
                      error = (if 0 < m
                               then Some (''Could not extract video ID from URL: '' @ url)
                               else None),
                      attempts = m,
                      failed_source = ''ytdlp_vtt_optimized''\<rparr>)]"
proof -
  assume none: "extract_video_id url = None"
  have fails: "item_attempt inp world i url k =
      Inl (ValueError (''Could not extract video ID from URL: '' @ url))" for k
    using none by (simp add: item_attempt_def invalid_url_attempt)
  have "process_url m (item_attempt inp world i url) url =
    failing_trace url (nat m) @
    [PushData (Failed \<lparr>failed_url = url,
        error = (if 0 < m
                 then Some (str_exn (projl (item_attempt inp world i url (nat (m - 1)))))
                 else None),
        attempts = m, failed_source = ''ytdlp_vtt_optimized''\<rparr>)]"
    by (rule process_url_all_fail) (simp add: fails)
  then show ?thesis by (simp add: fails)
qed

theorem invalid_url_retried_to_the_bound_witness:
  "process_url 2
     (item_attempt (example_input [''not a url''] 2 False) (const_world TimeoutExpired) 0
        ''not a url'')
     ''not a url'' =
   [ExtractCall ''not a url'', Sleep 5, ExtractCall ''not a url'',
    PushData (Failed \<lparr>failed_url = ''not a url'',
                       error = Some ''Could not extract video ID from URL: not a url'',
                       attempts = 2,
                       failed_source = ''ytdlp_vtt_optimized''\<rparr>)]"
  using invalid_url_retried_to_the_bound [OF example_not_a_url, of 2
      "example_input [''not a url''] 2 False" "const_world TimeoutExpired" 0]
  by (simp add: numeral_2_eq_2)



text \<open>
  C10. With \<open>maxRetries\<close> zero or negative the loop body never runs: no call of
  \<open>extract_transcript\<close>, no sleep, and the one event of the item is the push of a
  failure record with \<open>attempts = maxRetries\<close> and no error (\<open>last_error\<close> is still
  \<open>None\<close>).
\<close>

theorem no_attempt_without_retries:
  "m \<le> 0 \<Longrightarrow>
   process_url m attempt url =
   [PushData (Failed \<lparr>failed_url = url, error = None, attempts = m,
                       failed_source = ''ytdlp_vtt_optimized''\<rparr>)]"
  by (simp add: process_url_def retry_loop_exit)

theorem no_attempt_without_retries_witness:
  "process_url 0
     (item_attempt (example_input [''https://youtu.be/dQw4w9WgXcQ''] 0 False)
        (const_world TimeoutExpired) 0 ''https://youtu.be/dQw4w9WgXcQ'')
     ''https://youtu.be/dQw4w9WgXcQ'' =
   [PushData (Failed \<lparr>failed_url = ''https://youtu.be/dQw4w9WgXcQ'', error = None,
                       attempts = 0, failed_source = ''ytdlp_vtt_optimized''\<rparr>)]"
  using no_attempt_without_retries [of 0
      "item_attempt (example_input [''https://youtu.be/dQw4w9WgXcQ''] 0 False)
         (const_world TimeoutExpired) 0 ''https://youtu.be/dQw4w9WgXcQ''"
      "''https://youtu.be/dQw4w9WgXcQ''"]
  by simp

section \<open>Properties of one extraction attempt\<close>

lemma match_here_length: "match_here lit s = Some g \<Longrightarrow> length g = 11 \<and> list_all id_char g"
  by (auto simp: match_here_def filter_eq_Cons_iff split: list.splits)

lemma re_search_length: "re_search lit s = Some g \<Longrightarrow> length g = 11 \<and> list_all id_char g"
  by (induction lit s rule: re_search.induct)
     (auto split: option.splits dest: match_here_length)

lemma first_match_length:
  "first_match ps url = Some g \<Longrightarrow> length g = 11 \<and> list_all id_char g"
  by (induction ps url rule: first_match.induct)
     (auto split: option.splits dest: re_search_length)

lemma example_watch:
  "extract_video_id ''https://www.youtube.com/watch?v=dQw4w9WgXcQ'' = Some ''dQw4w9WgXcQ''"
  by code_simp

lemma example_shorts:
  "extract_video_id ''https://www.youtube.com/shorts/dQw4w9WgXcQ'' = Some ''dQw4w9WgXcQ''"
  by code_simp

lemma example_embed:
  "extract_video_id ''https://www.youtube.com/embed/dQw4w9WgXcQ'' = Some ''dQw4w9WgXcQ''"
  by code_simp

lemma example_other_site:
  "extract_video_id ''https://example.com/watch?v=dQw4w9WgXcQ'' = None"
  by code_simp

lemma example_stem: "stem ''Intro.end.en.vtt'' = ''Intro.end.en''"
  by code_simp

lemma example_title: "video_title_of ''Intro.end.en.vtt'' = ''Introd''"
  by code_simp

lemma example_plain_title: "video_title_of ''My Video.en.vtt'' = ''My Video''"
  by code_simp

lemma example_normalize_hello: "normalize ''hello'' False = ''hello''"
  by code_simp

lemma example_strip_hello: "py_strip ''hello'' = ''hello''"
  by code_simp

text \<open>
  C9. The caption file of a video titled \<open>My Video\<close> is \<open>My Video.en.vtt\<close> and the
  title is recovered. For a video titled \<open>Intro.end\<close> the file is
  \<open>Intro.end.en.vtt\<close>; its stem is \<open>Intro.end.en\<close>, and \<open>replace\<close> deletes
  \<open>.en\<close> wherever it occurs, inside the title as well as at its end: the success
  record carries the title \<open>Introd\<close>.
\<close>

theorem title_loses_inner_suffix_text:
  "video_title_of ''My Video.en.vtt'' = ''My Video'' \<and>
   stem ''Intro.end.en.vtt'' = ''Intro.end.en'' \<and>
   video_title_of ''Intro.end.en.vtt'' = ''Introd'' \<and>
   map_sum str_exn video_title
     (extract_transcript ''https://youtu.be/dQw4w9WgXcQ'' None False
        (Completed 0 [] [\<lparr>file_name = ''Intro.end.en.vtt'', file_read = Inr ''hello''\<rparr>])) =
   Inr ''Introd''"
  using example_stem example_title example_short_link example_normalize_hello
    example_strip_hello example_plain_title
  by (simp add: extract_transcript_def process_vtt_file_def process_vtt_try_def)

section \<open>Properties of the line classification\<close>

lemma py_in_single: "py_in [c] s \<longleftrightarrow> c \<in> set s"
  by (induction s) (auto simp: startswith_def)

lemma m_lit_elem: "r \<in> set (m_lit l s) \<Longrightarrow> s = l @ r"
proof -
  assume "r \<in> set (m_lit l s)"
  then have "take (length l) s = l" and "r = drop (length l) s"
    by (auto simp: m_lit_def startswith_def split: if_splits)
  then show ?thesis using append_take_drop_id [of "length l" s] by simp
qed

lemma m_digits_elem: "r \<in> set (m_digits n s) \<Longrightarrow> r = drop n s"
  by (auto simp: m_digits_def split: if_splits)

lemma colon_needed:
  "r \<in> set (m_seq m_digits_1_2 (m_seq (m_lit '':'') q) s) \<Longrightarrow> CHR '':'' \<in> set s"
proof -
  assume "r \<in> set (m_seq m_digits_1_2 (m_seq (m_lit '':'') q) s)"
  then obtain t u where t: "t \<in> set (m_digits_1_2 s)" and u: "u \<in> set (m_lit '':'' t)"
    by (auto simp: m_seq_def)
  from t obtain n where "t = drop n s"
    by (auto simp: m_digits_1_2_def m_alt_def dest: m_digits_elem)
  moreover from u have "CHR '':'' \<in> set t" by (auto dest: m_lit_elem)
  ultimately show ?thesis by (auto dest: in_set_dropD)
qed

lemma trimmed_last: "py_strip s = s \<Longrightarrow> s \<noteq> [] \<Longrightarrow> \<not> is_space (last s)"
proof -
  assume eq: "py_strip s = s" and ne: "s \<noteq> []"
  let ?d = "dropWhile is_space (rev (dropWhile is_space s))"
  from eq have "rev (rev ?d) = rev s" by (simp add: py_strip_def)
  then have d: "?d = rev s" by simp
  with ne have "?d \<noteq> []" by simp
  then have "\<not> is_space (hd ?d)" by (rule hd_dropWhile)
  with d ne show ?thesis by (simp add: hd_rev)
qed

lemma trimmed_dollar: "py_strip s = s \<Longrightarrow> re_dollar (drop k s) \<longleftrightarrow> length s \<le> k"
proof
  assume eq: "py_strip s = s" and "re_dollar (drop k s)"
  then consider "drop k s = []" | "drop k s = [CHR 0x0A]" by (auto simp: re_dollar_def)
  then show "length s \<le> k"
  proof cases
    case 1 then show ?thesis by simp
  next
    case 2
    then have k: "k < length s" by (cases "k < length s") simp_all
    then have "last (drop k s) = last s" by (rule last_drop)
    with 2 have "last s = CHR 0x0A" by simp
    moreover from k have "s \<noteq> []" by auto
    ultimately show ?thesis using eq trimmed_last [of s] by (simp add: is_space_def)
  qed
qed (simp add: re_dollar_def)

lemma takeWhile_length_all: "length (takeWhile P s) = length s \<longleftrightarrow> list_all P s"
proof (induction s)
  case Nil
  show ?case by simp
next
  case (Cons a s)
  show ?case
  proof (cases "P a")
    case True
    with Cons show ?thesis by simp
  next
    case False
    then show ?thesis by simp
  qed
qed

lemma digits_alternative:
  assumes "py_strip s = s"
  shows "list_ex re_dollar (m_digits_plus s) \<longleftrightarrow> spec_solely_digits s"
proof -
  let ?n = "length (takeWhile is_digit s)"
  have le: "?n \<le> length s" by (rule length_takeWhile_le)
  have "list_ex re_dollar (m_digits_plus s) \<longleftrightarrow>
        (\<exists>k \<in> set [1 ..< Suc ?n]. re_dollar (drop k s))"
    by (simp add: m_digits_plus_def list_ex_iff)
  also have "\<dots> \<longleftrightarrow> (\<exists>k \<in> set [1 ..< Suc ?n]. length s \<le> k)"
    by (simp only: trimmed_dollar [OF assms])
  also have "\<dots> \<longleftrightarrow> 1 \<le> length s \<and> ?n = length s"
  proof
    assume "\<exists>k \<in> set [1 ..< Suc ?n]. length s \<le> k"
    then obtain k where "1 \<le> k" "k \<le> ?n" "length s \<le> k" by auto
    with le show "1 \<le> length s \<and> ?n = length s" by linarith
  next
    assume "1 \<le> length s \<and> ?n = length s"
    then have "length s \<in> set [1 ..< Suc ?n]" by simp
    then show "\<exists>k \<in> set [1 ..< Suc ?n]. length s \<le> k" by blast
  qed
  also have "\<dots> \<longleftrightarrow> s \<noteq> [] \<and> list_all is_digit s"
    by (cases s) (simp_all only: takeWhile_length_all, simp_all)
  finally show ?thesis by (simp add: spec_solely_digits_def)
qed

lemma colon_not_digit: "\<not> is_digit (CHR '':'')"
  by (simp add: is_digit_def)

lemma digits_no_colon: "spec_solely_digits s \<Longrightarrow> \<not> py_in '':'' s"
proof
  assume "spec_solely_digits s" and "py_in '':'' s"
  then have "\<forall>c \<in> set s. is_digit c" and "CHR '':'' \<in> set s"
    by (simp_all add: spec_solely_digits_def py_in_single list_all_iff)
  then have "is_digit (CHR '':'')" by blast
  then show False by (simp add: colon_not_digit)
qed

text \<open>
  C6. On a trimmed line the guard of the code, the match of \<open>timestamp_regex\<close>
  conjoined with the absence of a colon, holds exactly when the specified rule does: the
  line consists solely of digits, or it matches the bare timestamp pattern and has no
  colon. The second alternative never applies, since the pattern needs a colon: both
  come to the line being a non-empty run of digits.
\<close>

theorem sequence_id_guard_is_the_specified_rule:
  "py_strip line = line \<Longrightarrow>
   is_sequence_id line = spec_sequence_marker line \<and>
   is_sequence_id line = spec_solely_digits line"
proof -
  assume t: "py_strip line = line"
  have ts: "is_timestamp_line line \<and> \<not> py_in '':'' line \<longleftrightarrow> spec_solely_digits line"
    using digits_alternative [OF t] digits_no_colon [of line]
    by (auto simp: is_timestamp_line_def re_match_dollar_def timestamp_regex_def m_alt_def
          list_ex_iff py_in_single dest: colon_needed)
  have "\<not> (spec_bare_timestamp line \<and> \<not> py_in '':'' line)"
    by (auto simp: spec_bare_timestamp_def list_ex_iff py_in_single dest: colon_needed)
  with ts show ?thesis
    by (auto simp: is_sequence_id_def spec_sequence_marker_def)
qed

lemma example_strip_42: "py_strip ''42'' = ''42''"
  by code_simp
lemma example_seq_42: "is_sequence_id ''42''"
  by code_simp

theorem sequence_id_guard_witness:
  "is_sequence_id ''42'' \<and> spec_sequence_marker ''42'' \<and>
   spec_solely_digits ''42''"
  using sequence_id_guard_is_the_specified_rule [OF example_strip_42] example_seq_42
  by simp

section \<open>Properties of the normalizer\<close>

lemma first_occurrences_snoc:
  "first_occurrences (xs @ [x]) =
   (if x \<in> set xs then first_occurrences xs else first_occurrences xs @ [x])"
  by (simp add: first_occurrences_def)

lemma distinct_first_occurrences: "distinct (first_occurrences xs)"
  by (simp add: first_occurrences_def)

lemma set_first_occurrences: "set (first_occurrences xs) = set xs"
  by (simp add: first_occurrences_def)

lemma vtt_loop_append:
  "vtt_loop ts (xs @ ys) st = vtt_loop ts ys (vtt_loop ts xs st)"
  by (induction xs arbitrary: st) simp_all

lemma loop_body_text_builder:
  "text_builder (loop_body ts st raw) =
   (if usable raw \<and> clean raw \<notin> seen_segments st
    then text_builder st @ [segment ts (current_timestamp st) (clean raw)]
    else text_builder st)"
  by (simp add: loop_body_def usable_def clean_def is_timing_line_def Let_def split: list.splits)

lemma loop_body_seen:
  "seen_segments (loop_body ts st raw) =
   (if usable raw then insert (clean raw) (seen_segments st) else seen_segments st)"
  by (auto simp: loop_body_def usable_def clean_def is_timing_line_def Let_def split: list.splits)

lemma loop_body_timestamp:
  "\<not> is_timing_line raw \<Longrightarrow> current_timestamp (loop_body ts st raw) = current_timestamp st"
  by (simp add: loop_body_def is_timing_line_def Let_def)

lemma vtt_loop_seen:
  "seen_segments (vtt_loop ts lines init_state) = set (map clean (filter usable lines))"
proof (induction lines rule: rev_induct)
  case Nil
  show ?case by (simp add: init_state_def)
next
  case (snoc l ls)
  then show ?case by (simp add: vtt_loop_append loop_body_seen)
qed

lemma vtt_loop_texts:
  "list_all2 (\<lambda>seg text. \<exists>t. seg = segment ts t text)
     (text_builder (vtt_loop ts lines init_state)) (texts lines)"
proof (induction lines rule: rev_induct)
  case Nil
  show ?case by (simp add: init_state_def texts_def first_occurrences_def)
next
  case (snoc l ls)
  show ?case
  proof (cases "usable l \<and> clean l \<notin> seen_segments (vtt_loop ts ls init_state)")
    case True
    then have "texts (ls @ [l]) = texts ls @ [clean l]"
      by (simp add: texts_def first_occurrences_snoc vtt_loop_seen)
    moreover have "list_all2 (\<lambda>seg text. \<exists>t. seg = segment ts t text)
        [segment ts (current_timestamp (vtt_loop ts ls init_state)) (clean l)] [clean l]"
      by auto
    ultimately show ?thesis
      using True snoc by (simp add: vtt_loop_append loop_body_text_builder list_all2_appendI)
  next
    case False
    then have "texts (ls @ [l]) = texts ls"
      by (auto simp: texts_def first_occurrences_snoc vtt_loop_seen)
    with False snoc show ?thesis
      by (auto simp: vtt_loop_append loop_body_text_builder)
  qed
qed

lemma vtt_loop_plain:
  "text_builder (vtt_loop False lines init_state) = texts lines"
proof -
  have "list_all2 (=) (text_builder (vtt_loop False lines init_state)) (texts lines)"
    using vtt_loop_texts [of False lines]
    by (rule list_all2_mono) (simp add: segment_def)
  then show ?thesis by (simp add: list.rel_eq)
qed

lemma segment_nonempty: "text \<noteq> [] \<Longrightarrow> segment ts t text \<noteq> []"
  by (simp add: segment_def stamped_def)

lemma texts_nonempty: "text \<in> set (texts lines) \<Longrightarrow> text \<noteq> []"
  by (auto simp: texts_def set_first_occurrences usable_def)

lemma texts_Nil: "texts lines = [] \<longleftrightarrow> \<not> list_ex usable lines"
proof -
  have "texts lines = [] \<longleftrightarrow> set (texts lines) = {}" by simp
  also have "\<dots> \<longleftrightarrow> filter usable lines = []"
    by (auto simp: texts_def set_first_occurrences filter_empty_conv)
  also have "\<dots> \<longleftrightarrow> \<not> list_ex usable lines"
    by (auto simp: filter_empty_conv list_ex_iff)
  finally show ?thesis .
qed

lemma py_join_Nil: "\<forall>x \<in> set xs. x \<noteq> [] \<Longrightarrow> py_join sep xs = [] \<longleftrightarrow> xs = []"
  by (induction sep xs rule: py_join.induct) simp_all

lemma list_all2_left_elem:
  "list_all2 R xs ys \<Longrightarrow> x \<in> set xs \<Longrightarrow> \<exists>y \<in> set ys. R x y"
  by (induction rule: list_all2_induct) auto

lemma segments_nonempty:
  "seg \<in> set (text_builder (vtt_loop ts lines init_state)) \<Longrightarrow> seg \<noteq> []"
proof -
  assume "seg \<in> set (text_builder (vtt_loop ts lines init_state))"
  with vtt_loop_texts [of ts lines]
  have "\<exists>tx \<in> set (texts lines). \<exists>t. seg = segment ts t tx"
    by (rule list_all2_left_elem)
  then obtain tx t where "tx \<in> set (texts lines)" and seg: "seg = segment ts t tx" by blast
  then have "tx \<noteq> []" by (simp add: texts_nonempty)
  then show ?thesis unfolding seg by (rule segment_nonempty)
qed

lemma segments_Nil:
  "text_builder (vtt_loop ts lines init_state) = [] \<longleftrightarrow> \<not> list_ex usable lines"
  using vtt_loop_texts [of ts lines] texts_Nil [of lines]
  by auto

text \<open>
  \<^const>\<open>first_occurrences\<close> read from the left: the head is kept and its later
  occurrences are dropped.
\<close>

lemma remdups_snoc: "remdups (ys @ [x]) = remdups (filter (\<lambda>y. y \<noteq> x) ys) @ [x]"
  by (induction ys) auto

lemma first_occurrences_Cons:
  "first_occurrences (x # xs) = x # first_occurrences (filter (\<lambda>y. y \<noteq> x) xs)"
  by (simp add: first_occurrences_def remdups_snoc rev_filter)

lemma py_strip_Nil: "py_strip s = [] \<longleftrightarrow> list_all is_space s"
proof -
  have "py_strip s = [] \<longleftrightarrow> (\<forall>x \<in> set (dropWhile is_space s). is_space x)"
    by (simp add: py_strip_def dropWhile_eq_Nil_conv)
  also have "\<dots> \<longleftrightarrow> dropWhile is_space s = []"
  proof
    assume a: "\<forall>x \<in> set (dropWhile is_space s). is_space x"
    show "dropWhile is_space s = []"
    proof (rule ccontr)
      assume ne: "dropWhile is_space s \<noteq> []"
      then have "\<not> is_space (hd (dropWhile is_space s))" by (rule hd_dropWhile)
      moreover from ne have "hd (dropWhile is_space s) \<in> set (dropWhile is_space s)" by simp
      ultimately show False using a by blast
    qed
  next
    assume "dropWhile is_space s = []"
    then show "\<forall>x \<in> set (dropWhile is_space s). is_space x" by (simp only: list.set ball_empty)
  qed
  also have "\<dots> \<longleftrightarrow> list_all is_space s"
    by (simp add: dropWhile_eq_Nil_conv list_all_iff)
  finally show ?thesis .
qed

lemma split_acc_chars:
  "l \<in> set (split_acc sep acc s) \<Longrightarrow> set l \<subseteq> set acc \<union> set s"
proof (induction sep acc s rule: split_acc.induct)
  case (1 sep acc)
  then show ?case by simp
next
  case (2 sep acc c cs)
  show ?case
  proof (cases "sep \<noteq> [] \<and> startswith sep (c # cs)")
    case True
    with "2.prems" consider "l = rev acc" | "l \<in> set (split_acc sep [] (drop (length sep) (c # cs)))"
      by auto
    then show ?thesis
    proof cases
      case 1 then show ?thesis by auto
    next
      case 2
      with "2.IH"(1) [OF True] have "set l \<subseteq> set (drop (length sep) (c # cs))" by simp
      also have "\<dots> \<subseteq> set (c # cs)" by (rule set_drop_subset)
      finally show ?thesis by auto
    qed
  next
    case False
    with "2.prems" have "l \<in> set (split_acc sep (c # acc) cs)" by auto
    with "2.IH"(2) [OF False] show ?thesis by auto
  qed
qed

lemma blank_no_usable: "py_strip content = [] \<Longrightarrow> \<not> list_ex usable (doc_lines content)"
proof -
  assume "py_strip content = []"
  then have sp: "\<forall>c \<in> set content. is_space c" by (simp add: py_strip_Nil list_all_iff)
  have "\<not> usable l" if "l \<in> set (doc_lines content)" for l
  proof -
    from that have "set l \<subseteq> set content"
      using split_acc_chars [of l "[CHR 0x0A]" "[]" content] by (simp add: doc_lines_def py_split_def)
    with sp have "list_all is_space l" by (auto simp: list_all_iff)
    then have "py_strip l = []" by (simp add: py_strip_Nil)
    then show ?thesis by (simp add: usable_def is_header_line_def)
  qed
  then show ?thesis by (auto simp: list_ex_iff)
qed

lemma segments_doc: "segments content ts = text_builder (vtt_loop ts (doc_lines content) init_state)"
  by (simp add: segments_def doc_lines_def)

lemma normalize_join:
  "normalize content ts = py_join (if ts then [CHR 0x0A] else '' '') (segments content ts)"
proof (cases "py_strip content = []")
  case True
  then have "segments content ts = []"
    by (simp add: segments_doc segments_Nil blank_no_usable)
  with True show ?thesis by (simp add: normalize_def)
next
  case False
  then show ?thesis by (simp add: normalize_def)
qed

lemma normalize_Nil: "normalize content ts = [] \<longleftrightarrow> \<not> list_ex usable (doc_lines content)"
proof -
  have "\<forall>x \<in> set (segments content ts). x \<noteq> []"
    by (auto simp: segments_doc dest: segments_nonempty)
  then have "normalize content ts = [] \<longleftrightarrow> segments content ts = []"
    unfolding normalize_join by (rule py_join_Nil)
  then show ?thesis by (simp add: segments_doc segments_Nil)
qed

lemma split_single_no_sep:
  "l \<in> set (split_acc [c] acc s) \<Longrightarrow> c \<notin> set acc \<Longrightarrow> c \<notin> set l"
proof (induction s arbitrary: acc)
  case Nil
  then show ?case by simp
next
  case (Cons x xs)
  show ?case
  proof (cases "x = c")
    case True
    with Cons.prems consider "l = rev acc" | "l \<in> set (split_acc [c] [] xs)"
      by (auto simp: startswith_def)
    then show ?thesis
    proof cases
      case 1 with Cons.prems show ?thesis by simp
    next
      case 2 then show ?thesis using Cons.IH [of "[]"] by simp
    qed
  next
    case False
    with Cons.prems have "l \<in> set (split_acc [c] (x # acc) xs)"
      by (auto simp: startswith_def)
    with False Cons.prems show ?thesis using Cons.IH [of "x # acc"] by auto
  qed
qed

lemma remove_vtt_tags_chars: "set (remove_vtt_tags s) \<subseteq> set s"
proof (induction s rule: remove_vtt_tags.induct)
  case 1
  show ?case by simp
next
  case (2 c cs)
  show ?case
  proof (cases "c = CHR ''<'' \<and> CHR ''>'' \<in> set cs")
    case True
    have "set (tl (dropWhile (\<lambda>x. x \<noteq> CHR ''>'') cs)) \<subseteq> set cs"
    proof -
      have "set (tl ys) \<subseteq> set ys" for ys :: string by (cases ys) auto
      moreover have "set (dropWhile (\<lambda>x. x \<noteq> CHR ''>'') cs) \<subseteq> set cs"
        by (auto dest: set_dropWhileD)
      ultimately show ?thesis by blast
    qed
    with "2.IH"(1) [OF True] True show ?thesis by auto
  next
    case False
    with "2.IH"(2) [OF False] show ?thesis by auto
  qed
qed

lemma py_strip_chars: "set (py_strip s) \<subseteq> set s"
proof
  fix x
  assume "x \<in> set (py_strip s)"
  then have "x \<in> set (dropWhile is_space (rev (dropWhile is_space s)))"
    by (simp add: py_strip_def)
  then have "x \<in> set (rev (dropWhile is_space s))" by (rule set_dropWhileD)
  then have "x \<in> set (dropWhile is_space s)" by simp
  then show "x \<in> set s" by (rule set_dropWhileD)
qed

lemma clean_chars: "set (clean l) \<subseteq> set l"
  using remove_vtt_tags_chars [of "py_strip l"] py_strip_chars [of l]
  by (auto simp: clean_def)

lemma py_join_chars: "set (py_join sep xs) \<subseteq> set sep \<union> \<Union> (set ` set xs)"
  by (induction sep xs rule: py_join.induct) auto

lemma plain_no_newline: "CHR 0x0A \<notin> set (normalize content False)"
proof
  assume "CHR 0x0A \<in> set (normalize content False)"
  then have "CHR 0x0A \<in> set (py_join '' '' (texts (doc_lines content)))"
    by (simp add: normalize_join segments_doc vtt_loop_plain)
  with py_join_chars [of "'' ''" "texts (doc_lines content)"]
  obtain tx where "tx \<in> set (texts (doc_lines content))" and nl: "CHR 0x0A \<in> set tx"
    by auto
  then obtain l where l: "l \<in> set (doc_lines content)" and "tx = clean l"
    by (auto simp: texts_def set_first_occurrences)
  with nl clean_chars [of l] have "CHR 0x0A \<in> set l" by auto
  moreover from l have "CHR 0x0A \<notin> set l"
    using split_single_no_sep [of l "CHR 0x0A" "[]" content]
    by (simp add: doc_lines_def py_split_def)
  ultimately show False by simp
qed

lemma example_document_texts:
  "first_occurrences (map clean (filter usable (doc_lines example_document))) =
   [''hello world'', ''next line'']"
  by code_simp

text \<open>
  C2, as stated, fails. The document with the two lines \<open><c> hi</c>\<close> and \<open>hi\<close>:
  the first line is trimmed before its tags are removed and not again afterwards, so
  its cleaned text keeps the leading space; the two texts differ as strings and both
  are emitted, although tag-stripped and trimmed they are the same text.
\<close>

theorem retrimmed_texts_counterexample:
  "segments (py_join [CHR 0x0A] [''<c> hi</c>'', ''hi'']) False = ['' hi'', ''hi''] \<and>
   segments (py_join [CHR 0x0A] [''<c> hi</c>'', ''hi'']) True = ['' hi'', ''hi''] \<and>
   py_strip (remove_vtt_tags '' hi'') = py_strip (remove_vtt_tags ''hi'')"
  by code_simp

text \<open>
  C2, amended. Whatever the flag, the emitted segments are, one for one and in order,
  renderings (bare, or behind a timestamp tag) of the cleaned texts of the usable lines
  taken once each in the order of first occurrence, where the cleaned text of a line is
  the line trimmed and then stripped of its tags (not trimmed again); these texts are
  pairwise distinct, compared as exact strings over the whole document. Without
  timestamps the segments are these texts themselves.
\<close>

theorem segments_have_distinct_texts:
  "list_all2 (\<lambda>seg tx. \<exists>t. seg = segment ts t tx) (segments D ts)
     (first_occurrences (map clean (filter usable (doc_lines D)))) \<and>
   distinct (first_occurrences (map clean (filter usable (doc_lines D)))) \<and>
   segments D False = first_occurrences (map clean (filter usable (doc_lines D)))"
  using vtt_loop_texts [of ts "doc_lines D"] vtt_loop_plain [of "doc_lines D"]
  by (simp add: segments_doc texts_def distinct_first_occurrences)

theorem segments_have_distinct_texts_witness:
  "segments example_document False = [''hello world'', ''next line'']"
  using segments_have_distinct_texts [of False example_document]
  by (simp add: example_document_texts)

lemma example_metadata_only_unusable:
  "list_ex usable (doc_lines example_metadata_only) = False"
  by code_simp

lemma example_blank: "list_all is_space [CHR 0x20, CHR 0x0A, CHR 0x09, CHR 0x0A]"
  by code_simp

text \<open>
  C3. For every document the \<open>try\<close> block returns a string, which
  \<open>process_vtt_file\<close> passes on; when reading the file raises, the result is the
  empty string. The result is empty exactly when no line of the document is usable,
  in particular for a document of white space only.
\<close>

theorem normalize_returns_and_is_empty_without_usable_line:
  "process_vtt_try (Inr D) ts = Inr (normalize D ts) \<and>
   process_vtt_file (Inr D) ts = normalize D ts \<and>
   process_vtt_file (Inl e) ts = [] \<and>
   (normalize D ts = [] \<longleftrightarrow> \<not> list_ex usable (doc_lines D)) \<and>
   (list_all is_space D \<longrightarrow> normalize D ts = [])"
proof -
  have "normalize D ts = []" if "list_all is_space D"
    using that by (simp add: normalize_def py_strip_Nil)
  then show ?thesis
    by (simp add: process_vtt_try_def process_vtt_file_def normalize_Nil)
qed

theorem normalize_returns_and_is_empty_without_usable_line_witness:
  "normalize example_metadata_only True = [] \<and>
   process_vtt_file (Inr example_metadata_only) True = [] \<and>
   normalize [CHR 0x20, CHR 0x0A, CHR 0x09, CHR 0x0A] False = []"
  using normalize_returns_and_is_empty_without_usable_line [of example_metadata_only True]
    normalize_returns_and_is_empty_without_usable_line
      [of "[CHR 0x20, CHR 0x0A, CHR 0x09, CHR 0x0A]" False]
    example_blank
  by (simp add: example_metadata_only_unusable)

text \<open>
  C4. The output is the segment list joined with a newline when timestamps are
  included and with one space otherwise; without timestamps no newline occurs in the
  output at all.
\<close>

theorem separator_law:
  "normalize D True = py_join [CHR 0x0A] (segments D True) \<and>
   normalize D False = py_join '' '' (segments D False) \<and>
   CHR 0x0A \<notin> set (normalize D False)"
  using normalize_join [of D True] normalize_join [of D False] plain_no_newline [of D]
  by simp

lemma example_document_plain:
  "segments example_document False = [''hello world'', ''next line'']"
  by code_simp

lemma example_document_stamped:
  "segments example_document True = [''[00:01:02] hello world'', ''[00:01:05] next line'']"
  by code_simp

theorem separator_law_witness:
  "normalize example_document True =
     ''[00:01:02] hello world'' @ [CHR 0x0A] @ ''[00:01:05] next line'' \<and>
   normalize example_document False = ''hello world next line''"
  using separator_law [of example_document] example_document_stamped example_document_plain
  by simp

section \<open>Timestamps\<close>

lemma space_not_digit: "\<not> is_digit (CHR '' '')"
  by (simp add: is_digit_def)

lemma dot_not_digit: "\<not> is_digit (CHR ''.'')"
  by (simp add: is_digit_def)

lemma split_acc_single_head:
  "\<exists>rest. split_acc [c] acc s = (rev acc @ takeWhile (\<lambda>x. x \<noteq> c) s) # rest"
proof (induction s arbitrary: acc)
  case Nil
  show ?case by simp
next
  case (Cons x xs)
  show ?case
  proof (cases "x = c")
    case True
    then show ?thesis by (simp add: startswith_def)
  next
    case False
    with Cons [of "x # acc"] show ?thesis by (simp add: startswith_def)
  qed
qed

lemma format_vtt_timestamp_takeWhile:
  "format_vtt_timestamp vtt_time = takeWhile (\<lambda>x. x \<noteq> CHR ''.'') vtt_time"
proof -
  obtain rest where "split_acc ''.'' [] vtt_time =
      (rev [] @ takeWhile (\<lambda>x. x \<noteq> CHR ''.'') vtt_time) # rest"
    using split_acc_single_head [of "CHR ''.''" "[]" vtt_time] by blast
  then show ?thesis by (simp add: format_vtt_timestamp_def py_split_def)
qed

lemma split_acc_arrow_head:
  "CHR '' '' \<notin> set S \<Longrightarrow>
   split_acc '' --> '' acc (S @ '' --> '' @ E) = (rev acc @ S) # split_acc '' --> '' [] E"
proof (induction S arbitrary: acc)
  case Nil
  show ?case by (simp add: startswith_def)
next
  case (Cons x xs)
  then have "x \<noteq> CHR '' ''" and "CHR '' '' \<notin> set xs" by auto
  with Cons.IH [of "x # acc"] show ?case by (simp add: startswith_def)
qed

lemma py_in_self: "py_in (c # cs) ((c # cs) @ b)"
  by (simp add: startswith_def)

lemma py_in_append: "py_in sub b \<Longrightarrow> py_in sub (a @ b)"
  by (induction a) simp_all

lemma py_in_arrow: "py_in ''-->'' (S @ '' --> '' @ E)"
proof -
  have "py_in ''-->'' (''-->'' @ ('' '' @ E))" using py_in_self [of "CHR ''-''" "''->''" "'' '' @ E"] by simp
  then have "py_in ''-->'' ((S @ '' '') @ ''-->'' @ ('' '' @ E))" by (rule py_in_append)
  then show ?thesis by simp
qed

lemma vtt_loop_keeps_timestamp:
  "list_all (\<lambda>l. \<not> is_timing_line l) between \<Longrightarrow>
   current_timestamp (vtt_loop ts between st) = current_timestamp st"
  by (induction between arbitrary: st) (simp_all add: loop_body_timestamp)

lemma vtt_loop_extends:
  "\<exists>zs. text_builder (vtt_loop ts ys st) = text_builder st @ zs"
proof (induction ys arbitrary: st)
  case Nil
  show ?case by simp
next
  case (Cons y ys)
  from Cons [of "loop_body ts st y"] obtain zs where
    "text_builder (vtt_loop ts (y # ys) st) = text_builder (loop_body ts st y) @ zs" by auto
  then show ?case by (auto simp: loop_body_text_builder)
qed


lemma timing_line_step:
  assumes "list_all is_digit [ha, hb, ma, mb, sa, sb, fa, fb, fc]"
    and "py_strip timing =
         [ha, hb, CHR '':'', ma, mb, CHR '':'', sa, sb, CHR ''.'', fa, fb, fc] @ '' --> '' @ rest"
  shows "loop_body True st timing =
         st\<lparr>current_timestamp := Some [ha, hb, CHR '':'', ma, mb, CHR '':'', sa, sb]\<rparr>"
proof -
  let ?S = "[ha, hb, CHR '':'', ma, mb, CHR '':'', sa, sb, CHR ''.'', fa, fb, fc]"
  from assms(1) have sp: "CHR '' '' \<notin> set ?S"
    using space_not_digit by auto
  from assms(1) have dot: "ha \<noteq> CHR ''.''" "hb \<noteq> CHR ''.''" "ma \<noteq> CHR ''.''" "mb \<noteq> CHR ''.''"
    "sa \<noteq> CHR ''.''" "sb \<noteq> CHR ''.''"
    using dot_not_digit by auto
  have hdr: "\<not> is_header_line (?S @ '' --> '' @ rest)"
    by (simp add: is_header_line_def startswith_def)
  have arrow: "py_in ''-->'' (?S @ '' --> '' @ rest)"
    by (rule py_in_arrow)
  have split: "py_split '' --> '' (?S @ '' --> '' @ rest) = ?S # split_acc '' --> '' [] rest"
    unfolding py_split_def using split_acc_arrow_head [OF sp, of "[]" rest] by simp
  have fmt: "format_vtt_timestamp ?S = [ha, hb, CHR '':'', ma, mb, CHR '':'', sa, sb]"
    using dot by (simp add: format_vtt_timestamp_takeWhile)
  show ?thesis
    unfolding loop_body_def Let_def assms(2)
    using hdr arrow split fmt by (simp only: if_True if_False list.case)
qed

lemma timing_line_not_emitted:
  "is_timing_line l \<Longrightarrow>
   text_builder (loop_body ts st l) = text_builder st \<and>
   seen_segments (loop_body ts st l) = seen_segments st"
  by (simp add: loop_body_text_builder loop_body_seen usable_def)

lemma example_timing_strip:
  "py_strip ''00:01:02.345 --> 00:01:05.000 align:start'' =
   [CHR ''0'', CHR ''0'', CHR '':'', CHR ''0'', CHR ''1'', CHR '':'', CHR ''0'', CHR ''2'',
    CHR ''.'', CHR ''3'', CHR ''4'', CHR ''5''] @ '' --> '' @ ''00:01:05.000 align:start''"
  by code_simp

lemma example_timing_digits:
  "list_all is_digit [CHR ''0'', CHR ''0'', CHR ''0'', CHR ''1'', CHR ''0'', CHR ''2'',
     CHR ''3'', CHR ''4'', CHR ''5'']"
  by code_simp

lemma example_text_usable: "usable ''hello <c>world</c>''"
  by code_simp

lemma example_text_clean: "clean ''hello <c>world</c>'' = ''hello world''"
  by code_simp

lemma example_nothing_before:
  "filter usable ([''WEBVTT'', ''Kind: captions'', [], ''1''] @
     ''00:01:02.345 --> 00:01:05.000 align:start'' # []) = []"
  by code_simp

lemma example_document_lines:
  "doc_lines example_document =
   [''WEBVTT'', ''Kind: captions'', [], ''1''] @
   ''00:01:02.345 --> 00:01:05.000 align:start'' # [] @ ''hello <c>world</c>'' #
   [[], ''2'', ''00:01:05.000 --> 00:01:07.000'', ''hello world'', ''next <i>line</i>'']"
  by code_simp

text \<open>
  C5. With timestamps included: let a timing line, once trimmed, start with a time
  \<open>HH:MM:SS.mmm\<close> followed by \<open> --> \<close>, let no further timing line stand between
  it and a usable line whose cleaned text has not occurred before. Then the loop appends
  for that line the segment \<open>[HH:MM:SS] \<close> followed by the cleaned text, and this
  segment is among the segments of every document whose lines continue from there.
  \<open>format_vtt_timestamp\<close> keeps what precedes the first dot, so \<open>00:01:02.345\<close>
  gives \<open>00:01:02\<close>. A timing line itself never adds to the segments.
\<close>

theorem timestamp_tag_on_text:
  assumes "list_all is_digit [ha, hb, ma, mb, sa, sb, fa, fb, fc]"
    and "py_strip timing =
         [ha, hb, CHR '':'', ma, mb, CHR '':'', sa, sb, CHR ''.'', fa, fb, fc] @ '' --> '' @ rest"
    and "list_all (\<lambda>l. \<not> is_timing_line l) between"
    and "usable line"
    and "clean line \<notin> set (map clean (filter usable (before @ timing # between)))"
  shows "text_builder (vtt_loop True (before @ timing # between @ [line]) init_state) =
         text_builder (vtt_loop True (before @ timing # between) init_state) @
         [''['' @ [ha, hb, CHR '':'', ma, mb, CHR '':'', sa, sb] @ ''] '' @ clean line] \<and>
         (doc_lines D = before @ timing # between @ line # after \<longrightarrow>
            ''['' @ [ha, hb, CHR '':'', ma, mb, CHR '':'', sa, sb] @ ''] '' @ clean line
              \<in> set (segments D True)) \<and>
         format_vtt_timestamp vtt_time = takeWhile (\<lambda>c. c \<noteq> CHR ''.'') vtt_time \<and>
         format_vtt_timestamp ''00:01:02.345'' = ''00:01:02'' \<and>
         (is_timing_line l \<longrightarrow> text_builder (loop_body ts st l) = text_builder st)"
proof -
  let ?T = "[ha, hb, CHR '':'', ma, mb, CHR '':'', sa, sb]"
  let ?pre = "before @ timing # between"
  let ?st = "vtt_loop True ?pre init_state"
  have "current_timestamp ?st =
        current_timestamp (loop_body True (vtt_loop True before init_state) timing)"
    using assms(3) by (simp add: vtt_loop_append vtt_loop_keeps_timestamp)
  also have "\<dots> = Some ?T"
    by (simp add: timing_line_step [OF assms(1,2)])
  finally have ts: "current_timestamp ?st = Some ?T" .
  have unseen: "clean line \<notin> seen_segments ?st"
    using assms(5) unfolding vtt_loop_seen .
  have "vtt_loop True (?pre @ [line]) init_state = loop_body True ?st line"
    by (simp only: vtt_loop_append vtt_loop.simps)
  then have "text_builder (vtt_loop True (?pre @ [line]) init_state) =
        text_builder ?st @ [segment True (current_timestamp ?st) (clean line)]"
    using assms(4) unseen by (simp add: loop_body_text_builder)
  then have step: "text_builder (vtt_loop True (?pre @ [line]) init_state) =
        text_builder ?st @ [''['' @ ?T @ ''] '' @ clean line]"
    by (simp add: ts segment_def stamped_def)
  have doc: "''['' @ ?T @ ''] '' @ clean line \<in> set (segments D True)"
    if "doc_lines D = before @ timing # between @ line # after"
  proof -
    from that have "doc_lines D = (?pre @ [line]) @ after" by simp
    then have "segments D True =
        text_builder (vtt_loop True after (vtt_loop True (?pre @ [line]) init_state))"
      by (simp only: segments_doc vtt_loop_append)
    then obtain zs where "segments D True =
        text_builder (vtt_loop True (?pre @ [line]) init_state) @ zs"
      using vtt_loop_extends [of True after "vtt_loop True (?pre @ [line]) init_state"] by auto
    with step show ?thesis by simp
  qed
  have ex: "format_vtt_timestamp ''00:01:02.345'' = ''00:01:02''"
    by (simp add: format_vtt_timestamp_takeWhile)
  from step have step': "text_builder (vtt_loop True (before @ timing # between @ [line]) init_state) =
         text_builder ?st @ [''['' @ ?T @ ''] '' @ clean line]" by simp
  show ?thesis
    using step' doc ex format_vtt_timestamp_takeWhile [of vtt_time]
      timing_line_not_emitted [of l ts st]
    by blast
qed

theorem timestamp_tag_on_text_witness:
  "text_builder
     (vtt_loop True
        ([''WEBVTT'', ''Kind: captions'', [], ''1''] @
         ''00:01:02.345 --> 00:01:05.000 align:start'' # [] @ [''hello <c>world</c>''])
        init_state) =
   text_builder
     (vtt_loop True
        ([''WEBVTT'', ''Kind: captions'', [], ''1''] @
         ''00:01:02.345 --> 00:01:05.000 align:start'' # [])
        init_state) @
   [''[00:01:02] hello world''] \<and>
   ''[00:01:02] hello world'' \<in> set (segments example_document True)"
  using timestamp_tag_on_text
      [where between = "[]" and line = "''hello <c>world</c>''"
         and before = "[''WEBVTT'', ''Kind: captions'', [], ''1'']"
         and D = example_document
         and after = "[[], ''2'', ''00:01:05.000 --> 00:01:07.000'', ''hello world'',
                       ''next <i>line</i>'']",
       OF example_timing_digits example_timing_strip]
    example_text_usable example_nothing_before example_document_lines
  by (simp add: example_text_clean)

section \<open>Recognised URL shapes\<close>

lemma url_prefix_split: "r \<in> set (url_prefix s) \<Longrightarrow> \<exists>p. s = p @ r"
proof -
  assume "r \<in> set (url_prefix s)"
  then obtain t where t: "t \<in> set (m_opt (m_seq (m_lit ''http'')
        (m_seq (m_opt (m_lit ''s'')) (m_lit ''://''))) s)"
    and r: "r \<in> set (m_opt (m_lit ''www.'') t)"
    by (auto simp: url_prefix_def m_seq_def)
  from r have rt: "\<exists>q. t = q @ r"
    by (auto simp: m_opt_def dest: m_lit_elem)
  from t consider "t = s" | u v where "u \<in> set (m_lit ''http'' s)"
      "v \<in> set (m_opt (m_lit ''s'') u)" "t \<in> set (m_lit ''://'' v)"
    by (auto simp: m_opt_def m_seq_def)
  then have "\<exists>q. s = q @ t"
  proof cases
    case 1
    then show ?thesis by simp
  next
    case 2
    from 2(1) have "s = ''http'' @ u" by (rule m_lit_elem)
    moreover from 2(2) have "\<exists>q. u = q @ v" by (auto simp: m_opt_def dest: m_lit_elem)
    moreover from 2(3) have "v = ''://'' @ t" by (rule m_lit_elem)
    ultimately show ?thesis by (metis append.assoc)
  qed
  with rt show ?thesis by (metis append.assoc)
qed

lemma url_prefix_skip: "s \<in> set (url_prefix s)"
  by (simp add: url_prefix_def m_seq_def m_opt_def)

lemma has_shape_append: "has_shape lit t \<Longrightarrow> has_shape lit (p @ t)"
  by (induction p) simp_all

lemma has_shape_here: "shape_here lit s \<Longrightarrow> has_shape lit s"
  by (cases s) simp_all

lemma match_here_occurs:
  "match_here lit s = Some g \<Longrightarrow> \<exists>p rest. s = p @ lit @ g @ rest \<and> shape_here lit (lit @ g @ rest)"
proof -
  assume "match_here lit s = Some g"
  then obtain r rs where f: "filter (\<lambda>r. 11 \<le> length r \<and> list_all id_char (take 11 r))
      (m_seq url_prefix (m_lit lit) s) = r # rs" and g: "g = take 11 r"
    by (auto simp: match_here_def split: list.splits)
  have "r \<in> set (filter (\<lambda>r. 11 \<le> length r \<and> list_all id_char (take 11 r))
      (m_seq url_prefix (m_lit lit) s))" by (simp add: f)
  then have r: "r \<in> set (m_seq url_prefix (m_lit lit) s)"
    and len: "11 \<le> length r" and ids: "list_all id_char (take 11 r)"
    by simp_all
  from r obtain t where "t \<in> set (url_prefix s)" and "r \<in> set (m_lit lit t)"
    by (auto simp: m_seq_def)
  then obtain p where s: "s = p @ lit @ r"
    by (auto dest!: url_prefix_split m_lit_elem)
  have rr: "r = g @ drop 11 r" by (simp add: g)
  have "shape_here lit (lit @ r)"
    using len ids by (simp add: shape_here_def startswith_def)
  with s rr show ?thesis by metis
qed

lemma shape_here_match: "shape_here lit s \<Longrightarrow> match_here lit s \<noteq> None"
proof -
  assume sh: "shape_here lit s"
  let ?r = "drop (length lit) s"
  from sh have "?r \<in> set (m_lit lit s)" by (simp add: shape_here_def m_lit_def)
  with url_prefix_skip [of s] have "?r \<in> set (m_seq url_prefix (m_lit lit) s)"
    by (auto simp: m_seq_def)
  with sh have "?r \<in> set (filter (\<lambda>r. 11 \<le> length r \<and> list_all id_char (take 11 r))
      (m_seq url_prefix (m_lit lit) s))"
    by (simp add: shape_here_def)
  then have "filter (\<lambda>r. 11 \<le> length r \<and> list_all id_char (take 11 r))
      (m_seq url_prefix (m_lit lit) s) \<noteq> []" by (metis empty_iff empty_set)
  then show ?thesis by (simp add: match_here_def split: list.splits)
qed

lemma re_search_None_iff: "re_search lit s = None \<longleftrightarrow> \<not> has_shape lit s"
proof (induction s)
  case Nil
  show ?case
  proof (cases "match_here lit []")
    case None
    then have "\<not> shape_here lit []" using shape_here_match [of lit "[]"] by auto
    with None show ?thesis by simp
  next
    case (Some g)
    then obtain p rest where "[] = p @ lit @ g @ rest" and "shape_here lit (lit @ g @ rest)"
      using match_here_occurs by blast
    then have "shape_here lit []" by simp
    with Some show ?thesis by simp
  qed
next
  case (Cons c cs)
  show ?case
  proof (cases "match_here lit (c # cs)")
    case None
    then have "\<not> shape_here lit (c # cs)" using shape_here_match [of lit "c # cs"] by auto
    with None Cons show ?thesis by simp
  next
    case (Some g)
    then obtain p rest where s: "c # cs = p @ lit @ g @ rest"
      and "shape_here lit (lit @ g @ rest)"
      using match_here_occurs by blast
    then have "has_shape lit (p @ lit @ g @ rest)"
      by (intro has_shape_append has_shape_here)
    with s have "has_shape lit (c # cs)" by simp
    with Some show ?thesis by simp
  qed
qed

lemma re_search_occurs:
  "re_search lit s = Some g \<Longrightarrow> \<exists>pre post. s = pre @ lit @ g @ post"
proof (induction s)
  case Nil
  then show ?case using match_here_occurs [of lit "[]" g] by auto
next
  case (Cons c cs)
  show ?case
  proof (cases "match_here lit (c # cs)")
    case None
    with Cons.prems have "re_search lit cs = Some g" by simp
    with Cons.IH obtain pre post where "cs = pre @ lit @ g @ post" by blast
    then have "c # cs = (c # pre) @ lit @ g @ post" by simp
    then show ?thesis by blast
  next
    case (Some h)
    with Cons.prems have "h = g" by simp
    with Some show ?thesis using match_here_occurs [of lit "c # cs" g] by blast
  qed
qed

lemma first_match_None_iff:
  "first_match ps url = None \<longleftrightarrow> \<not> list_ex (\<lambda>lit. has_shape lit url) ps"
proof (induction ps)
  case Nil
  show ?case by simp
next
  case (Cons lit ps)
  show ?case
  proof (cases "re_search lit url")
    case None
    with Cons show ?thesis by (simp add: re_search_None_iff [symmetric])
  next
    case (Some g)
    then have "has_shape lit url" using re_search_None_iff [of lit url] by simp
    with Some show ?thesis by simp
  qed
qed

lemma first_match_occurs:
  "first_match ps url = Some g \<Longrightarrow>
   \<exists>lit pre post. lit \<in> set ps \<and> url = pre @ lit @ g @ post"
proof (induction ps)
  case Nil
  then show ?case by simp
next
  case (Cons lit ps)
  show ?case
  proof (cases "re_search lit url")
    case None
    with Cons.prems have "first_match ps url = Some g" by simp
    with Cons.IH show ?thesis by auto
  next
    case (Some h)
    with Cons.prems have "re_search lit url = Some g" by simp
    then obtain pre post where "url = pre @ lit @ g @ post" using re_search_occurs by blast
    then show ?thesis by auto
  qed
qed

lemma slash_not_id_char: "\<not> id_char (CHR ''/'')"
  by (simp add: id_char_def)

lemma has_shape_chars: "has_shape lit s \<Longrightarrow> set lit \<subseteq> set s"
proof (induction s)
  case Nil
  then show ?case by (simp add: shape_here_def startswith_def)
next
  case (Cons c cs)
  from Cons.prems consider "shape_here lit (c # cs)" | "has_shape lit cs" by auto
  then show ?case
  proof cases
    case 1
    then have "take (length lit) (c # cs) = lit" by (simp add: shape_here_def startswith_def)
    then have "set lit \<subseteq> set (c # cs)" using set_take_subset [of "length lit" "c # cs"] by simp
    then show ?thesis .
  next
    case 2
    with Cons.IH show ?thesis by auto
  qed
qed

lemma no_shape_in_id:
  "list_all id_char s \<Longrightarrow> CHR ''/'' \<in> set lit \<Longrightarrow> \<not> has_shape lit s"
proof
  assume ids: "list_all id_char s" and sl: "CHR ''/'' \<in> set lit" and "has_shape lit s"
  then have "CHR ''/'' \<in> set s" using has_shape_chars by blast
  with ids have "id_char (CHR ''/'')" by (simp add: list_all_iff)
  then show False by (simp add: slash_not_id_char)
qed

lemma watch_form:
  assumes "length vid = 11" and "list_all id_char vid"
  shows "extract_video_id (''https://www.youtube.com/watch?v='' @ vid) = Some vid"
proof -
  have "match_here ''youtube.com/watch?v='' (''https://www.youtube.com/watch?v='' @ vid) = Some vid"
    using assms
    by (simp add: match_here_def url_prefix_def m_seq_def m_opt_def m_lit_def startswith_def)
  then have "re_search ''youtube.com/watch?v='' (''https://www.youtube.com/watch?v='' @ vid) = Some vid"
    by simp
  then show ?thesis by (simp add: extract_video_id_def patterns_def)
qed

lemma short_link_form:
  assumes "length vid = 11" and "list_all id_char vid"
  shows "extract_video_id (''https://youtu.be/'' @ vid) = Some vid"
proof -
  let ?url = "''https://youtu.be/'' @ vid"
  have "\<not> has_shape ''youtube.com/watch?v='' ?url"
    using assms(2) by (simp add: shape_here_def startswith_def no_shape_in_id)
  then have n1: "re_search ''youtube.com/watch?v='' ?url = None"
    unfolding re_search_None_iff .
  have "match_here ''youtu.be/'' ?url = Some vid"
    using assms
    by (simp add: match_here_def url_prefix_def m_seq_def m_opt_def m_lit_def startswith_def)
  then have "re_search ''youtu.be/'' ?url = Some vid"
    by simp
  with n1 show ?thesis by (simp only: extract_video_id_def patterns_def first_match.simps option.case)
qed

lemma shorts_form:
  assumes "length vid = 11" and "list_all id_char vid"
  shows "extract_video_id (''https://www.youtube.com/shorts/'' @ vid) = Some vid"
proof -
  let ?url = "''https://www.youtube.com/shorts/'' @ vid"
  have "\<not> has_shape ''youtube.com/watch?v='' ?url"
    using assms(2) by (simp add: shape_here_def startswith_def no_shape_in_id)
  then have n1: "re_search ''youtube.com/watch?v='' ?url = None"
    unfolding re_search_None_iff .
  have "\<not> has_shape ''youtu.be/'' ?url"
    using assms(2) by (simp add: shape_here_def startswith_def no_shape_in_id)
  then have n2: "re_search ''youtu.be/'' ?url = None"
    unfolding re_search_None_iff .
  have "match_here ''youtube.com/shorts/'' ?url = Some vid"
    using assms
    by (simp add: match_here_def url_prefix_def m_seq_def m_opt_def m_lit_def startswith_def)
  then have "re_search ''youtube.com/shorts/'' ?url = Some vid"
    by simp
  with n1 n2 show ?thesis
    by (simp only: extract_video_id_def patterns_def first_match.simps option.case)
qed

lemma embed_form:
  assumes "length vid = 11" and "list_all id_char vid"
  shows "extract_video_id (''https://www.youtube.com/embed/'' @ vid) = Some vid"
proof -
  let ?url = "''https://www.youtube.com/embed/'' @ vid"
  have "\<not> has_shape ''youtube.com/watch?v='' ?url"
    using assms(2) by (simp add: shape_here_def startswith_def no_shape_in_id)
  then have n1: "re_search ''youtube.com/watch?v='' ?url = None"
    unfolding re_search_None_iff .
  have "\<not> has_shape ''youtu.be/'' ?url"
    using assms(2) by (simp add: shape_here_def startswith_def no_shape_in_id)
  then have n2: "re_search ''youtu.be/'' ?url = None"
    unfolding re_search_None_iff .
  have "\<not> has_shape ''youtube.com/shorts/'' ?url"
    using assms(2) by (simp add: shape_here_def startswith_def no_shape_in_id)
  then have n3: "re_search ''youtube.com/shorts/'' ?url = None"
    unfolding re_search_None_iff .
  have "match_here ''youtube.com/embed/'' ?url = Some vid"
    using assms
    by (simp add: match_here_def url_prefix_def m_seq_def m_opt_def m_lit_def startswith_def)
  then have "re_search ''youtube.com/embed/'' ?url = Some vid"
    by simp
  with n1 n2 n3 show ?thesis
    by (simp only: extract_video_id_def patterns_def first_match.simps option.case)
qed

lemma example_no_shape: "list_ex (\<lambda>lit. has_shape lit ''youtube'') patterns = False"
  by code_simp

lemma example_other_id: "list_all id_char ''AAAAAAAAAAA''"
  by code_simp

text \<open>
  C7. The watch-page, short-link, shorts and embed forms of a URL give the eleven
  characters that follow, for \<open>dQw4w9WgXcQ\<close> and for every other id of eleven
  identifier characters. No id is found exactly when the URL has none of the four
  shapes, as for a URL of another site. An id that is found is eleven identifier
  characters standing in the URL right after the literal of one of the patterns. When
  none is found, \<open>extract_transcript\<close> raises the \<open>ValueError\<close> for the URL, whatever
  the outside world would have done.
\<close>

theorem video_id_extraction:
  "extract_video_id ''https://www.youtube.com/watch?v=dQw4w9WgXcQ'' = Some ''dQw4w9WgXcQ'' \<and>
   extract_video_id ''https://youtu.be/dQw4w9WgXcQ'' = Some ''dQw4w9WgXcQ'' \<and>
   extract_video_id ''https://www.youtube.com/shorts/dQw4w9WgXcQ'' = Some ''dQw4w9WgXcQ'' \<and>
   extract_video_id ''https://www.youtube.com/embed/dQw4w9WgXcQ'' = Some ''dQw4w9WgXcQ'' \<and>
   extract_video_id ''https://example.com/watch?v=dQw4w9WgXcQ'' = None \<and>
   (length vid = 11 \<and> list_all id_char vid \<longrightarrow>
      extract_video_id (''https://www.youtube.com/watch?v='' @ vid) = Some vid \<and>
      extract_video_id (''https://youtu.be/'' @ vid) = Some vid \<and>
      extract_video_id (''https://www.youtube.com/shorts/'' @ vid) = Some vid \<and>
      extract_video_id (''https://www.youtube.com/embed/'' @ vid) = Some vid) \<and>
   (extract_video_id url = None \<longleftrightarrow> \<not> list_ex (\<lambda>lit. has_shape lit url) patterns) \<and>
   (extract_video_id url = Some g \<longrightarrow>
      length g = 11 \<and> list_all id_char g \<and>
      (\<exists>lit pre post. lit \<in> set patterns \<and> url = pre @ lit @ g @ post)) \<and>
   (extract_video_id url = None \<longrightarrow>
      extract_transcript url p ts outcome =
      Inl (ValueError (''Could not extract video ID from URL: '' @ url)))"
proof -
  have forms: "extract_video_id (''https://www.youtube.com/watch?v='' @ vid) = Some vid \<and>
      extract_video_id (''https://youtu.be/'' @ vid) = Some vid \<and>
      extract_video_id (''https://www.youtube.com/shorts/'' @ vid) = Some vid \<and>
      extract_video_id (''https://www.youtube.com/embed/'' @ vid) = Some vid"
    if "length vid = 11 \<and> list_all id_char vid"
    using that by (simp only: watch_form short_link_form shorts_form embed_form simp_thms)
  have none: "extract_video_id url = None \<longleftrightarrow> \<not> list_ex (\<lambda>lit. has_shape lit url) patterns"
    unfolding extract_video_id_def by (rule first_match_None_iff)
  have some: "length g = 11 \<and> list_all id_char g \<and>
      (\<exists>lit pre post. lit \<in> set patterns \<and> url = pre @ lit @ g @ post)"
    if "extract_video_id url = Some g"
    using that first_match_length [of patterns url g] first_match_occurs [of patterns url g]
    unfolding extract_video_id_def by blast
  have err: "extract_transcript url p ts outcome =
      Inl (ValueError (''Could not extract video ID from URL: '' @ url))"
    if "extract_video_id url = None"
    using that by (rule invalid_url_attempt)
  show ?thesis
    using example_watch example_short_link example_shorts example_embed example_other_site
      forms none some err
    by blast
qed

theorem video_id_extraction_witness:
  "extract_video_id (''https://youtu.be/'' @ ''AAAAAAAAAAA'') = Some ''AAAAAAAAAAA'' \<and>
   extract_video_id ''youtube'' = None \<and>
   extract_transcript ''youtube'' None False TimeoutExpired =
   Inl (ValueError ''Could not extract video ID from URL: youtube'')"
  using video_id_extraction
      [where vid = "''AAAAAAAAAAA''" and url = "''youtube''" and p = None and ts = False
         and outcome = TimeoutExpired]
    example_no_shape example_other_id
  by simp

end
